theory Spec2Isabelle
  imports Main "HOL-Library.AList"
begin

section \<open>Strings\<close>

text \<open>
  A Python \<open>str\<close> is a sequence of Unicode code points; it is modelled as the list of
  its code points, so that text outside Latin-1 (the judge serves Chinese pages) is in
  the model. \<open>lit\<close> turns an ASCII literal of the source into such a list.
\<close>

type_synonym pystr = "nat list"

definition lit :: "string \<Rightarrow> pystr" where
  "lit s = map of_char s"

text \<open>The code points for which Python's \<open>str.isspace\<close> holds; \<open>str.strip()\<close> removes them.\<close>

definition py_isspace :: "nat \<Rightarrow> bool" where
  "py_isspace c =
     ((9 \<le> c \<and> c \<le> 13) \<or> (28 \<le> c \<and> c \<le> 32) \<or> c = 133 \<or> c = 160 \<or> c = 5760 \<or>
      (8192 \<le> c \<and> c \<le> 8202) \<or> c = 8232 \<or> c = 8233 \<or> c = 8239 \<or> c = 8287 \<or> c = 12288)"

definition py_strip :: "pystr \<Rightarrow> pystr" where
  "py_strip s = rev (dropWhile py_isspace (rev (dropWhile py_isspace s)))"

text \<open>\<open>str(i)\<close> for a Python int: the decimal digits, with a minus sign below zero.\<close>

fun digits :: "nat \<Rightarrow> pystr" where
  "digits n = (if n < 10 then [48 + n] else digits (n div 10) @ [48 + n mod 10])"

declare digits.simps [simp del]

definition py_str :: "int \<Rightarrow> pystr" where
  "py_str i = (if i < 0 then 45 # digits (nat (- i)) else digits (nat i))"

section \<open>The document tree\<close>

text \<open>
  The source hands every page to \<open>BeautifulSoup(html, 'html.parser')\<close> and then only
  walks the tree that the library returns. A page is therefore modelled as that tree:
  a \<open>Tag\<close> has a name, its \<open>class\<close> attribute (\<open>None\<close> when absent; the HTML builders
  split the attribute's value into a list), and its children; \<open>NavigableString\<close> is a
  text node; \<open>Comment\<close> stands for the string nodes of the special classes (comments,
  declarations, script and style bodies), which \<open>.string\<close> returns and \<open>get_text\<close>
  leaves out. The \<open>BeautifulSoup\<close> object itself is the root \<open>Tag\<close>.
\<close>

datatype node =
    Tag (tag_name: pystr) (tag_class: "pystr list option") (contents: "node list")
  | NavigableString pystr
  | Comment pystr

text \<open>\<open>.descendants\<close>: every node below the given one, in document order.\<close>

fun descendants :: "node \<Rightarrow> node list" where
  "descendants (Tag n c ks) = concat (map (\<lambda>k. k # descendants k) ks)"
| "descendants (NavigableString s) = []"
| "descendants (Comment s) = []"

fun is_tag_named :: "pystr \<Rightarrow> node \<Rightarrow> bool" where
  "is_tag_named name (Tag n c ks) = (n = name)"
| "is_tag_named name (NavigableString s) = False"
| "is_tag_named name (Comment s) = False"

text \<open>\<open>node.find_all(name)\<close> and \<open>node.find(name)\<close>.\<close>

definition find_all :: "pystr \<Rightarrow> node \<Rightarrow> node list" where
  "find_all name t = filter (is_tag_named name) (descendants t)"

definition find_first :: "pystr \<Rightarrow> node \<Rightarrow> node option" where
  "find_first name t = (case find_all name t of [] \<Rightarrow> None | x # xs \<Rightarrow> Some x)"

text \<open>
  The \<open>.string\<close> property: a string node is its own string; a tag with exactly one
  child has that child's string; any other tag has none.
\<close>

fun node_string :: "node \<Rightarrow> pystr option" where
  "node_string (Tag n c [k]) = node_string k"
| "node_string (Tag n c ks) = None"
| "node_string (NavigableString s) = Some s"
| "node_string (Comment s) = Some s"

text \<open>\<open>node.find(name, string=s)\<close>: the first tag of that name whose \<open>.string\<close> equals \<open>s\<close>.\<close>

definition find_all_string :: "pystr \<Rightarrow> pystr \<Rightarrow> node \<Rightarrow> node list" where
  "find_all_string name s t = filter (\<lambda>d. node_string d = Some s) (find_all name t)"

definition find_string :: "pystr \<Rightarrow> pystr \<Rightarrow> node \<Rightarrow> node option" where
  "find_string name s t = (case find_all_string name s t of [] \<Rightarrow> None | x # xs \<Rightarrow> Some x)"

text \<open>\<open>tag.get('class', [])\<close>.\<close>

definition get_class :: "node \<Rightarrow> pystr list" where
  "get_class t = (case t of Tag n (Some cs) ks \<Rightarrow> cs | _ \<Rightarrow> [])"

text \<open>
  \<open>node.get_text(strip=True)\<close>: the text nodes below the node, each stripped, the empty
  ones dropped, joined with the empty separator.
\<close>

fun text_of :: "node \<Rightarrow> pystr option" where
  "text_of (NavigableString s) = Some s"
| "text_of (Tag n c ks) = None"
| "text_of (Comment s) = None"

definition get_text_strip :: "node \<Rightarrow> pystr" where
  "get_text_strip t =
     concat (filter (\<lambda>s. length s \<noteq> 0) (map py_strip (List.map_filter text_of (descendants t))))"

section \<open>Parsing a page\<close>

record submission =
  time :: pystr
  problem :: pystr
  user :: pystr
  language :: pystr
  status :: pystr
  score :: pystr
  time_used :: pystr
  memory_used :: pystr

text \<open>
  The exceptions of a run: \<open>RequestException\<close> is the class the collection loop
  catches (timeouts, connection errors and \<open>HTTPError\<close> are in it); the others are
  not in that class. \<open>OSError\<close> is what \<open>open\<close> or a write raises
  (\<open>FileNotFoundError\<close> is one); \<open>Exception\<close> stands for any further exception.
\<close>

datatype error =
  KeyError pystr | RequestException | ParserRejectedMarkup | UnicodeEncodeError | OSError | Exception

definition bind_r :: "error + 'a \<Rightarrow> ('a \<Rightarrow> error + 'b) \<Rightarrow> error + 'b" where
  "bind_r m f = (case m of Inl e \<Rightarrow> Inl e | Inr x \<Rightarrow> f x)"

text \<open>
  The body of the \<open>try\<close> in \<open>parse_submission_page\<close>: the eight cell reads in the order
  of the dictionary display. The library call \<open>cols[i].get_text(strip=True)\<close> is the
  parameter \<open>gt\<close>, which may raise; the first read that raises ends the body.
\<close>

type_synonym extractor = "node \<Rightarrow> error + pystr"

definition row_submission :: "extractor \<Rightarrow> node list \<Rightarrow> error + submission" where
  "row_submission gt cols =
     bind_r (gt (cols ! 0)) (\<lambda>c0.
     bind_r (gt (cols ! 1)) (\<lambda>c1.
     bind_r (gt (cols ! 2)) (\<lambda>c2.
     bind_r (gt (cols ! 3)) (\<lambda>c3.
     bind_r (gt (cols ! 4)) (\<lambda>c4.
     bind_r (gt (cols ! 5)) (\<lambda>c5.
     bind_r (gt (cols ! 6)) (\<lambda>c6.
     bind_r (if length cols > 7 then gt (cols ! 7) else Inr (lit ''N/A'')) (\<lambda>c7.
       Inr \<lparr>time = c0, problem = c1, user = c2, language = c3, status = c4,
            score = c5, time_used = c6, memory_used = c7\<rparr>))))))))"

text \<open>The \<open>for row in rows\<close> loop: short rows and rows whose body raised are passed over.\<close>

fun parse_rows :: "extractor \<Rightarrow> node list \<Rightarrow> submission list" where
  "parse_rows gt [] = []"
| "parse_rows gt (row # rows) =
     (let cols = find_all (lit ''td'') row in
      if length cols < 7 then parse_rows gt rows
      else (case row_submission gt cols of
              Inr s \<Rightarrow> s # parse_rows gt rows
            | Inl e \<Rightarrow> parse_rows gt rows))"

definition parse_submission_page_with :: "extractor \<Rightarrow> node \<Rightarrow> submission list" where
  "parse_submission_page_with gt soup =
     (case find_first (lit ''table'') soup of
        None \<Rightarrow> []
      | Some table \<Rightarrow> parse_rows gt (drop 1 (find_all (lit ''tr'') table)))"

text \<open>The library's own \<open>get_text\<close> returns a string for every tag.\<close>

definition bs4_get_text :: extractor where
  "bs4_get_text c = Inr (get_text_strip c)"

definition parse_submission_page :: "node \<Rightarrow> submission list" where
  "parse_submission_page soup = parse_submission_page_with bs4_get_text soup"

definition has_next_page :: "node \<Rightarrow> bool" where
  "has_next_page soup =
     (case find_string (lit ''a'') (lit ''Next'') soup of
        None \<Rightarrow> False
      | Some next_button \<Rightarrow> lit ''disabled'' \<notin> set (get_class next_button))"

section \<open>Collecting the pages of one job\<close>

text \<open>
  The judge is the environment. A request carries \<open>uidOrName\<close>, \<open>pid\<close> and \<open>page\<close> (the
  other parameters are constant); the judge's answer may depend on the request and on
  how many requests the run has issued before it, so a judge whose records change
  while the run goes on is covered. \<open>Raises e\<close> is an exception out of
  \<open>session.get\<close>: a \<open>RequestException\<close> for a timeout or a connection error, or
  another one (a \<open>UnicodeEncodeError\<close> while the request is built, for instance).
  Otherwise there is a response with a status code and a text; the text is given by
  what \<open>BeautifulSoup(html, 'html.parser')\<close> makes of it: the tree, or the exception
  with which the parser rejects it.
\<close>

type_synonym request = "pystr \<times> pystr \<times> int"

datatype response = Raises error | Response (status_code: int) (response_text: "error + node")

type_synonym server = "nat \<Rightarrow> request \<Rightarrow> response"

text \<open>
  What the run does to the world and to the module's global \<open>result\<close>: the requests
  issued so far, the number of one-second pauses, the lines printed, the files written
  (each write with its name and content, in order), and the dictionary \<open>result\<close> with
  its keys in insertion order. Log records are not part of the model.
\<close>

record state =
  requests :: "request list"
  sleeps :: nat
  stdout :: "pystr list"
  files :: "(pystr \<times> submission list) list"
  result :: "(pystr \<times> int list) list"

text \<open>
  \<open>response.raise_for_status()\<close> raises an \<open>HTTPError\<close> (a \<open>RequestException\<close>) for the
  status codes from 400 to 599; \<open>response_page\<close> is what the \<open>try\<close> block gets out of
  \<open>session.get(...)\<close>, \<open>raise_for_status()\<close> and the parser together: an exception or
  the tree of the page.
\<close>

fun response_page :: "response \<Rightarrow> error + node" where
  "response_page (Raises e) = Inl e"
| "response_page (Response code html) =
     (if 400 \<le> code \<and> code < 600 then Inl RequestException else html)"

definition session_get :: "server \<Rightarrow> request \<Rightarrow> state \<Rightarrow> (error + node) \<times> state" where
  "session_get srv rq st =
     (response_page (srv (length (requests st)) rq), st\<lparr>requests := requests st @ [rq]\<rparr>)"

definition sleep :: "state \<Rightarrow> state" where
  "sleep st = st\<lparr>sleeps := sleeps st + 1\<rparr>"

text \<open>
  The \<open>while page <= max_pages\<close> loop of \<open>fetch_submissions\<close>. Its \<open>except\<close> clause
  catches a \<open>RequestException\<close> and ends the loop; any other exception leaves the
  function. The result is the list returned or the exception that left, together with
  the state of the world at that moment.
\<close>

function fetch_loop ::
  "server \<Rightarrow> pystr \<Rightarrow> pystr \<Rightarrow> int \<Rightarrow> int \<Rightarrow> submission list \<Rightarrow> state \<Rightarrow>
     (error + submission list) \<times> state"
where
  "fetch_loop srv uid_or_name pid max_pages page submissions st =
     (if page \<le> max_pages then
        (case session_get srv (uid_or_name, pid, page) st of
           (Inl e, st1) \<Rightarrow>
             (if e = RequestException then (Inr submissions, st1) else (Inl e, st1))
         | (Inr html, st1) \<Rightarrow>
             (let page_submissions = parse_submission_page html in
              if page_submissions = [] then (Inr submissions, st1)
              else if \<not> has_next_page html then (Inr (submissions @ page_submissions), st1)
              else fetch_loop srv uid_or_name pid max_pages (page + 1)
                     (submissions @ page_submissions) (sleep st1)))
      else (Inr submissions, st))"
  by pat_completeness auto
termination
  by (relation "measure (\<lambda>(srv, uid_or_name, pid, max_pages, page, submissions, st).
        nat (max_pages + 1 - page))") auto

declare fetch_loop.simps [simp del]

definition fetch_submissions ::
  "server \<Rightarrow> pystr \<Rightarrow> pystr \<Rightarrow> int \<Rightarrow> state \<Rightarrow> (error + submission list) \<times> state"
where
  "fetch_submissions srv uid_or_name pid max_pages st =
     fetch_loop srv uid_or_name pid max_pages 1 [] st"



section \<open>Deciding a job and running the batch\<close>

definition submission_line :: "int \<Rightarrow> submission \<Rightarrow> pystr" where
  "submission_line i sub =
     py_str i @ lit ''. ['' @ time sub @ lit ''] '' @ problem sub @ lit '' - '' @ status sub @
     lit '' ('' @ score sub @ lit '')''"

text \<open>
  The \<open>for i, sub in enumerate(submissions, 1)\<close> loop of \<open>checker\<close> with its \<open>else\<close>:
  the lines it prints, and the number it appends to \<open>result[username]\<close>.
\<close>

fun checker_loop :: "int \<Rightarrow> submission list \<Rightarrow> pystr list \<times> int" where
  "checker_loop i [] = ([], 0)"
| "checker_loop i (sub # subs) =
     (if time sub = lit ''100Accepted'' then ([submission_line i sub], 1)
      else (case checker_loop (i + 1) subs of
              (lines, r) \<Rightarrow> (submission_line i sub # lines, r)))"




definition username_of :: "pystr \<Rightarrow> int \<Rightarrow> pystr" where
  "username_of usernameFormat i =
     (if i > 9 then usernameFormat @ py_str i else usernameFormat @ lit ''0'' @ py_str i)"




text \<open>The state a run starts in: nothing requested, printed or written, \<open>result = {}\<close>.\<close>

definition initial_state :: state where
  "initial_state = \<lparr>requests = [], sleeps = 0, stdout = [], files = [], result = []\<rparr>"

section \<open>Sample data\<close>

text \<open>A record as the judge's table gives it, with the \<open>time\<close> cell left open.\<close>

definition sample_submission :: "pystr \<Rightarrow> submission" where
  "sample_submission t =
     \<lparr>time = t, problem = lit ''P1'', user = lit ''stu01'', language = lit ''C++'',
      status = lit ''Accepted'', score = lit ''100'', time_used = lit ''1ms'',
      memory_used = lit ''N/A''\<rparr>"

text \<open>
  Pieces of a page: a cell, a row, a row of seven cells that reads as
  \<open>sample_submission\<close>, a header row, an anchor, and a document with one table and
  some anchors after it.
\<close>

definition td :: "pystr \<Rightarrow> node" where
  "td s = Tag (lit ''td'') None [NavigableString s]"

definition tr :: "node list \<Rightarrow> node" where
  "tr cells = Tag (lit ''tr'') None cells"

definition sample_row :: "pystr \<Rightarrow> node" where
  "sample_row t =
     tr (map td [t, lit ''P1'', lit ''stu01'', lit ''C++'', lit ''Accepted'', lit ''100'', lit ''1ms''])"

definition header_row :: node where
  "header_row = tr [Tag (lit ''th'') None [NavigableString (lit ''Time'')]]"

definition anchor :: "pystr list option \<Rightarrow> pystr \<Rightarrow> node" where
  "anchor cls s = Tag (lit ''a'') cls [NavigableString s]"

definition sample_table :: "node list \<Rightarrow> node" where
  "sample_table rows = Tag (lit ''table'') None (header_row # rows)"

definition sample_page :: "node list \<Rightarrow> node list \<Rightarrow> node" where
  "sample_page rows anchors = Tag (lit ''[document]'') None (sample_table rows # anchors)"

text \<open>A \<open>get_text\<close> that raises on the cell \<open>boom\<close>.\<close>

definition raising_get_text :: extractor where
  "raising_get_text c =
     (if get_text_strip c = lit ''boom'' then Inl Exception else Inr (get_text_strip c))"

text \<open>
  A judge that answers the requests of a run from a script, and is out of reach after
  it.
\<close>

definition scripted_server :: "response list \<Rightarrow> server" where
  "scripted_server rs n rq = (if n < length rs then rs ! n else Raises RequestException)"

text \<open>A judge that always answers with the same page.\<close>

definition constant_server :: "node \<Rightarrow> server" where
  "constant_server html n rq = Response 200 (Inr html)"


text \<open>
  Two anchors for the next-page control: one with an icon before its text, one whose
  only child is a comment.
\<close>

definition icon_anchor :: node where
  "icon_anchor =
     Tag (lit ''a'') None [Tag (lit ''i'') (Some [lit ''icon'']) [], NavigableString (lit ''Next'')]"

definition comment_anchor :: node where
  "comment_anchor = Tag (lit ''a'') None [Comment (lit ''Next'')]"

section \<open>Facts about strings\<close>

lemma digits_nonempty: "digits n \<noteq> []"
  by (subst digits.simps) auto

lemma digits_range: "\<forall>c\<in>set (digits n). 48 \<le> c \<and> c \<le> 57"
  by (induction n rule: digits.induct) (subst digits.simps, auto)

lemma digits_hd: "0 < n \<Longrightarrow> hd (digits n) \<noteq> 48"
proof (induction n rule: digits.induct)
  case (1 n)
  show ?case
  proof (cases "n < 10")
    case True
    with 1 show ?thesis by (subst digits.simps) simp
  next
    case False
    then have "0 < n div 10" by simp
    with 1 False have "hd (digits (n div 10)) \<noteq> 48" by simp
    with False show ?thesis by (subst digits.simps) (simp add: digits_nonempty)
  qed
qed

lemma digits_value: "foldl (\<lambda>a c. 10 * a + (c - 48)) 0 (digits n) = n"
  by (induction n rule: digits.induct) (subst digits.simps, auto)

lemma digits_small: "n < 10 \<Longrightarrow> digits n = [48 + n]"
  by (subst digits.simps) simp

section \<open>The outcome of a job\<close>

lemma enumerate_shift:
  "map (\<lambda>(k, sub). f (i + int k) sub) (List.enumerate (Suc n) subs) =
   map (\<lambda>(k, sub). f (i + 1 + int k) sub) (List.enumerate n subs)"
  by (induction subs arbitrary: n) (auto simp: add.assoc)

lemma checker_loop_no_match:
  "\<forall>s\<in>set subs. time s \<noteq> lit ''100Accepted'' \<Longrightarrow>
   checker_loop i subs =
     (map (\<lambda>(k, sub). submission_line (i + int k) sub) (List.enumerate 0 subs), 0)"
  by (induction subs arbitrary: i) (auto simp: enumerate_shift)

lemma checker_loop_match:
  "\<forall>s\<in>set pre. time s \<noteq> lit ''100Accepted'' \<Longrightarrow> time m = lit ''100Accepted'' \<Longrightarrow>
   checker_loop i (pre @ m # post) =
     (map (\<lambda>(k, sub). submission_line (i + int k) sub) (List.enumerate 0 (pre @ [m])), 1)"
  by (induction pre arbitrary: i) (auto simp: enumerate_shift)


text \<open>
  C1. The loop of \<open>checker\<close> goes through the records in order. At the first record whose
  \<open>time\<close> field is \<open>"100Accepted"\<close> it yields 1 and stops: the lines it has printed are
  those of the records up to that one, whatever follows it. When no record has that
  \<open>time\<close> field, and so for the empty sequence, it prints a line for every record and
  yields 0.
\<close>

theorem checker_loop_first_match:
  "((\<forall>s\<in>set pre. time s \<noteq> lit ''100Accepted'') \<and> time m = lit ''100Accepted'' \<longrightarrow>
      checker_loop 1 (pre @ m # post) =
        (map (\<lambda>(k, sub). submission_line (1 + int k) sub) (List.enumerate 0 (pre @ [m])), 1)) \<and>
   ((\<forall>s\<in>set subs. time s \<noteq> lit ''100Accepted'') \<longrightarrow>
      checker_loop 1 subs =
        (map (\<lambda>(k, sub). submission_line (1 + int k) sub) (List.enumerate 0 subs), 0)) \<and>
   checker_loop 1 [] = ([], 0)"
  using checker_loop_match [of pre m 1 post] checker_loop_no_match [of subs 1] by simp

theorem checker_loop_first_match_witness:
  "checker_loop 1 [sample_submission (lit ''2 hours ago''), sample_submission (lit ''100Accepted''),
       sample_submission (lit ''100Accepted'')] =
     ([submission_line 1 (sample_submission (lit ''2 hours ago'')),
       submission_line 2 (sample_submission (lit ''100Accepted''))], 1) \<and>
   checker_loop 1 [sample_submission (lit ''2 hours ago'')] =
     ([submission_line 1 (sample_submission (lit ''2 hours ago''))], 0)"
  using checker_loop_first_match [of "[sample_submission (lit ''2 hours ago'')]"
      "sample_submission (lit ''100Accepted'')" "[sample_submission (lit ''100Accepted'')]"
      "[sample_submission (lit ''2 hours ago'')]"]
  by (simp add: sample_submission_def lit_def)

section \<open>Usernames\<close>

lemma username_of_low: "1 \<le> i \<Longrightarrow> i \<le> 9 \<Longrightarrow> username_of p i = p @ lit ''0'' @ [48 + nat i]"
  by (simp add: username_of_def py_str_def digits_small)

lemma username_of_high: "9 < i \<Longrightarrow> username_of p i = p @ py_str i"
  by (simp add: username_of_def)

lemma py_str_decimal:
  "0 < i \<Longrightarrow>
   hd (py_str i) \<noteq> 48 \<and> (\<forall>c\<in>set (py_str i). 48 \<le> c \<and> c \<le> 57) \<and>
   int (foldl (\<lambda>a c. 10 * a + (c - 48)) 0 (py_str i)) = i"
  using digits_hd [of "nat i"] digits_range [of "nat i"] digits_value [of "nat i"]
  by (simp add: py_str_def)

lemma username_of_twelve:
  "map (username_of p) [1..12] =
     [p @ lit ''01'', p @ lit ''02'', p @ lit ''03'', p @ lit ''04'', p @ lit ''05'', p @ lit ''06'',
      p @ lit ''07'', p @ lit ''08'', p @ lit ''09'', p @ lit ''10'', p @ lit ''11'', p @ lit ''12'']"
proof -
  have u: "[1..12] = [1, 2, 3, 4, 5, 6, 7, 8, 9, 10, 11, 12 :: int]"
    by (simp add: upto.simps)
  have d: "digits 10 = [49, 48]" "digits 11 = [49, 49]" "digits 12 = [49, 50]"
    by (subst digits.simps, simp add: digits_small)+
  show ?thesis
    unfolding u by (simp add: username_of_def py_str_def digits_small d lit_def)
qed

text \<open>
  C8. For an index from 1 to 9 the username is the prefix, a \<open>0\<close> and the digit of the
  index; for an index above 9 it is the prefix and \<open>str(i)\<close>, the decimal digits of the
  index, which do not begin with \<open>0\<close>. Twelve members are \<open>prefix01\<close> to \<open>prefix09\<close> and
  then \<open>prefix10\<close> to \<open>prefix12\<close>.
\<close>

theorem username_of_padding:
  "(1 \<le> i \<and> i \<le> 9 \<longrightarrow> username_of p i = p @ lit ''0'' @ [48 + nat i]) \<and>
   (9 < i \<longrightarrow>
      username_of p i = p @ py_str i \<and> hd (py_str i) \<noteq> 48 \<and>
      (\<forall>c\<in>set (py_str i). 48 \<le> c \<and> c \<le> 57) \<and>
      int (foldl (\<lambda>a c. 10 * a + (c - 48)) 0 (py_str i)) = i) \<and>
   map (username_of p) [1..12] =
     [p @ lit ''01'', p @ lit ''02'', p @ lit ''03'', p @ lit ''04'', p @ lit ''05'', p @ lit ''06'',
      p @ lit ''07'', p @ lit ''08'', p @ lit ''09'', p @ lit ''10'', p @ lit ''11'', p @ lit ''12'']"
  using username_of_low [of i p] username_of_high [of i p] py_str_decimal [of i]
    username_of_twelve [of p]
  by simp

theorem username_of_padding_witness:
  "username_of (lit ''stu'') 7 = lit ''stu07'' \<and>
   username_of (lit ''stu'') 123 = lit ''stu123'' \<and> py_str 123 = lit ''123''"
proof -
  have d: "digits 123 = [49, 50, 51]"
    by (subst digits.simps, simp, subst digits.simps, simp add: digits_small)
  show ?thesis
    using username_of_padding [of 7 "lit ''stu''"] username_of_padding [of 123 "lit ''stu''"]
    by (simp add: lit_def py_str_def d)
qed

section \<open>Parsing\<close>

lemmas sample_defs =
  sample_page_def sample_table_def sample_row_def header_row_def anchor_def tr_def td_def
  sample_submission_def

lemmas bs4_defs =
  find_first_def find_all_def find_string_def find_all_string_def get_class_def
  get_text_strip_def py_strip_def py_isspace_def List.map_filter_def

lemma parse_rows_append: "parse_rows gt (xs @ ys) = parse_rows gt xs @ parse_rows gt ys"
  by (induction xs) (simp_all add: Let_def split: sum.splits)

lemma ex_less_8: "(\<exists>i<8::nat. P i) = (P 0 \<or> P 1 \<or> P 2 \<or> P 3 \<or> P 4 \<or> P 5 \<or> P 6 \<or> P 7)"
proof -
  have "\<And>i::nat. i < 8 \<longleftrightarrow> i = 0 \<or> i = 1 \<or> i = 2 \<or> i = 3 \<or> i = 4 \<or> i = 5 \<or> i = 6 \<or> i = 7"
    by arith
  then show ?thesis by auto
qed

lemma row_submission_isl:
  "7 \<le> length cols \<Longrightarrow>
   isl (row_submission gt cols) = (\<exists>i<8. i < length cols \<and> isl (gt (cols ! i)))"
  unfolding ex_less_8
  by (cases "7 < length cols")
     (auto simp: row_submission_def bind_r_def split: sum.splits)

lemma parse_rows_single:
  "parse_rows gt [row] =
     (if length (find_all (lit ''td'') row) < 7 \<or>
         (\<exists>i<8. i < length (find_all (lit ''td'') row) \<and> isl (gt (find_all (lit ''td'') row ! i)))
      then [] else [projr (row_submission gt (find_all (lit ''td'') row))])"
proof (cases "length (find_all (lit ''td'') row) < 7")
  case True
  then show ?thesis by simp
next
  case False
  then have "7 \<le> length (find_all (lit ''td'') row)" by simp
  from row_submission_isl [OF this, of gt] False show ?thesis
    by (cases "row_submission gt (find_all (lit ''td'') row)") auto
qed

lemma parse_rows_length:
  "length (parse_rows gt rows) =
     length (filter (\<lambda>r. \<not> (length (find_all (lit ''td'') r) < 7 \<or>
        (\<exists>i<8. i < length (find_all (lit ''td'') r) \<and> isl (gt (find_all (lit ''td'') r ! i))))) rows)"
proof (induction rows)
  case Nil
  then show ?case by simp
next
  case (Cons r rows)
  define bad where "bad = (length (find_all (lit ''td'') r) < 7 \<or>
        (\<exists>i<8. i < length (find_all (lit ''td'') r) \<and> isl (gt (find_all (lit ''td'') r ! i))))"
  have single: "parse_rows gt [r] =
      (if bad then [] else [projr (row_submission gt (find_all (lit ''td'') r))])"
    unfolding bad_def by (rule parse_rows_single)
  have app: "parse_rows gt (r # rows) = parse_rows gt [r] @ parse_rows gt rows"
    using parse_rows_append [of gt "[r]" rows] by simp
  have "length (parse_rows gt (r # rows)) = (if bad then 0 else 1) + length (parse_rows gt rows)"
    by (subst app) (simp add: single del: parse_rows.simps)
  with Cons show ?case unfolding bad_def by (auto simp del: parse_rows.simps)
qed

lemma row_submission_bs4:
  "row_submission bs4_get_text cols =
     Inr \<lparr>time = get_text_strip (cols ! 0), problem = get_text_strip (cols ! 1),
          user = get_text_strip (cols ! 2), language = get_text_strip (cols ! 3),
          status = get_text_strip (cols ! 4), score = get_text_strip (cols ! 5),
          time_used = get_text_strip (cols ! 6),
          memory_used = (if 7 < length cols then get_text_strip (cols ! 7) else lit ''N/A'')\<rparr>"
  by (simp add: row_submission_def bind_r_def bs4_get_text_def)

lemma parse_rows_bs4:
  "\<forall>r\<in>set rows. 7 \<le> length (find_all (lit ''td'') r) \<Longrightarrow>
   parse_rows bs4_get_text rows =
     map (\<lambda>r. \<lparr>time = get_text_strip (find_all (lit ''td'') r ! 0),
               problem = get_text_strip (find_all (lit ''td'') r ! 1),
               user = get_text_strip (find_all (lit ''td'') r ! 2),
               language = get_text_strip (find_all (lit ''td'') r ! 3),
               status = get_text_strip (find_all (lit ''td'') r ! 4),
               score = get_text_strip (find_all (lit ''td'') r ! 5),
               time_used = get_text_strip (find_all (lit ''td'') r ! 6),
               memory_used = (if 7 < length (find_all (lit ''td'') r)
                  then get_text_strip (find_all (lit ''td'') r ! 7) else lit ''N/A'')\<rparr>) rows"
  by (induction rows) (simp_all add: row_submission_bs4 Let_def)

text \<open>
  C2. When the first table of the page has a header row and then N rows of at least
  seven cells each, \<open>parse_submission_page\<close> returns N records, one per row and in the
  order of the rows, with the stripped text of cell 0 as \<open>time\<close>, 1 as \<open>problem\<close>,
  2 as \<open>user\<close>, 3 as \<open>language\<close>, 4 as \<open>status\<close>, 5 as \<open>score\<close>, 6 as
  \<open>time_used\<close>, and as \<open>memory_used\<close> the text of cell 7 when the row has one and
  \<open>N/A\<close> otherwise.
\<close>

theorem parse_submission_page_rows:
  assumes "find_first (lit ''table'') soup = Some table"
    and "find_all (lit ''tr'') table = header # rows"
    and "\<forall>r\<in>set rows. 7 \<le> length (find_all (lit ''td'') r)"
  shows "length (parse_submission_page soup) = length rows \<and>
    parse_submission_page soup =
      map (\<lambda>r. \<lparr>time = get_text_strip (find_all (lit ''td'') r ! 0),
               problem = get_text_strip (find_all (lit ''td'') r ! 1),
               user = get_text_strip (find_all (lit ''td'') r ! 2),
               language = get_text_strip (find_all (lit ''td'') r ! 3),
               status = get_text_strip (find_all (lit ''td'') r ! 4),
               score = get_text_strip (find_all (lit ''td'') r ! 5),
               time_used = get_text_strip (find_all (lit ''td'') r ! 6),
               memory_used = (if 7 < length (find_all (lit ''td'') r)
                  then get_text_strip (find_all (lit ''td'') r ! 7) else lit ''N/A'')\<rparr>) rows"
proof -
  have "parse_submission_page soup = parse_rows bs4_get_text rows"
    using assms(1,2) by (simp add: parse_submission_page_def parse_submission_page_with_def)
  with parse_rows_bs4 [OF assms(3)] show ?thesis by simp
qed

theorem parse_submission_page_rows_witness:
  "parse_submission_page
     (sample_page
        [sample_row (lit '' 2 hours ago ''),
         tr (map td [lit ''now'', lit ''P2'', lit ''stu02'', lit ''C'', lit ''Wrong'', lit ''0'',
                     lit ''2ms'', lit ''64 KiB''])] []) =
     [sample_submission (lit ''2 hours ago''),
      \<lparr>time = lit ''now'', problem = lit ''P2'', user = lit ''stu02'', language = lit ''C'',
       status = lit ''Wrong'', score = lit ''0'', time_used = lit ''2ms'',
       memory_used = lit ''64 KiB''\<rparr>]"
proof -
  let ?rows = "[sample_row (lit '' 2 hours ago ''),
         tr (map td [lit ''now'', lit ''P2'', lit ''stu02'', lit ''C'', lit ''Wrong'', lit ''0'',
                     lit ''2ms'', lit ''64 KiB''])]"
  have h1: "find_first (lit ''table'') (sample_page ?rows []) = Some (sample_table ?rows)"
    by (simp add: sample_defs bs4_defs lit_def)
  have h2: "find_all (lit ''tr'') (sample_table ?rows) = header_row # ?rows"
    by (simp add: sample_defs bs4_defs lit_def)
  have h3: "\<forall>r\<in>set ?rows. 7 \<le> length (find_all (lit ''td'') r)"
    by (simp add: sample_defs bs4_defs lit_def)
  from parse_submission_page_rows [OF h1 h2 h3] show ?thesis
    by (simp add: sample_defs bs4_defs lit_def)
qed

text \<open>
  C3. A row with fewer than seven cells, and a row in which the read of one of its
  cells raises, adds nothing to the result and changes nothing for the rows around it:
  the result is what the rows before it give, followed by what the rows after it give.
  Any other row adds its record in its place. So the result has one record for every
  row that is neither short nor raising, and \<open>parse_submission_page\<close> has a result for
  every page.
\<close>

theorem parse_passes_over_bad_rows:
  assumes "find_first (lit ''table'') soup = Some table"
    and "drop 1 (find_all (lit ''tr'') table) = before @ row # after"
  shows "(length (find_all (lit ''td'') row) < 7 \<or>
       (\<exists>i<8. i < length (find_all (lit ''td'') row) \<and> isl (gt (find_all (lit ''td'') row ! i))) \<longrightarrow>
       parse_submission_page_with gt soup = parse_rows gt before @ parse_rows gt after) \<and>
    (\<not> (length (find_all (lit ''td'') row) < 7 \<or>
       (\<exists>i<8. i < length (find_all (lit ''td'') row) \<and> isl (gt (find_all (lit ''td'') row ! i)))) \<longrightarrow>
       (\<exists>s. row_submission gt (find_all (lit ''td'') row) = Inr s \<and>
            parse_submission_page_with gt soup = parse_rows gt before @ s # parse_rows gt after)) \<and>
    length (parse_submission_page_with gt soup) =
      length (filter (\<lambda>r. \<not> (length (find_all (lit ''td'') r) < 7 \<or>
        (\<exists>i<8. i < length (find_all (lit ''td'') r) \<and> isl (gt (find_all (lit ''td'') r ! i)))))
        (drop 1 (find_all (lit ''tr'') table)))"
proof -
  define bad where "bad = (length (find_all (lit ''td'') row) < 7 \<or>
       (\<exists>i<8. i < length (find_all (lit ''td'') row) \<and> isl (gt (find_all (lit ''td'') row ! i))))"
  have page: "parse_submission_page_with gt soup =
      parse_rows gt (drop 1 (find_all (lit ''tr'') table))"
    using assms(1) by (simp add: parse_submission_page_with_def)
  have page': "parse_submission_page_with gt soup = parse_rows gt (before @ row # after)"
    using assms by (simp add: parse_submission_page_with_def)
  have single: "parse_rows gt [row] =
      (if bad then [] else [projr (row_submission gt (find_all (lit ''td'') row))])"
    unfolding bad_def by (rule parse_rows_single)
  have split: "parse_rows gt (before @ row # after) =
      parse_rows gt before @ parse_rows gt [row] @ parse_rows gt after"
    using parse_rows_append [of gt before "[row] @ after"] parse_rows_append [of gt "[row]" after]
    by simp
  have isr: "\<not> bad \<Longrightarrow>
      row_submission gt (find_all (lit ''td'') row) =
        Inr (projr (row_submission gt (find_all (lit ''td'') row)))"
  proof -
    assume nb: "\<not> bad"
    then have "7 \<le> length (find_all (lit ''td'') row)" by (simp add: bad_def)
    from row_submission_isl [OF this, of gt] nb
    have "\<not> isl (row_submission gt (find_all (lit ''td'') row))" by (simp add: bad_def)
    then show ?thesis by (cases "row_submission gt (find_all (lit ''td'') row)") simp_all
  qed
  have c1: "bad \<longrightarrow> parse_submission_page_with gt soup = parse_rows gt before @ parse_rows gt after"
    by (simp only: page' split single) simp
  have c2: "\<not> bad \<longrightarrow> (\<exists>s. row_submission gt (find_all (lit ''td'') row) = Inr s \<and>
            parse_submission_page_with gt soup = parse_rows gt before @ s # parse_rows gt after)"
    using isr by (simp only: page' split single) auto
  have c3: "length (parse_submission_page_with gt soup) =
      length (filter (\<lambda>r. \<not> (length (find_all (lit ''td'') r) < 7 \<or>
        (\<exists>i<8. i < length (find_all (lit ''td'') r) \<and> isl (gt (find_all (lit ''td'') r ! i)))))
        (drop 1 (find_all (lit ''tr'') table)))"
    unfolding page by (rule parse_rows_length)
  from c1 c2 c3 show ?thesis unfolding bad_def by blast
qed

theorem parse_passes_over_bad_rows_witness:
  "parse_submission_page_with raising_get_text
     (sample_page [sample_row (lit ''a''), tr [td (lit ''x'')], sample_row (lit ''boom''),
        sample_row (lit ''z'')] []) =
     [sample_submission (lit ''a''), sample_submission (lit ''z'')] \<and>
   length (find_all (lit ''td'') (tr [td (lit ''x'')])) < 7 \<and>
   isl (raising_get_text (find_all (lit ''td'') (sample_row (lit ''boom'')) ! 0))"
proof -
  let ?rows = "[sample_row (lit ''a''), tr [td (lit ''x'')], sample_row (lit ''boom''),
        sample_row (lit ''z'')]"
  have h1: "find_first (lit ''table'') (sample_page ?rows []) = Some (sample_table ?rows)"
    by (simp add: sample_defs bs4_defs lit_def)
  have h2: "drop 1 (find_all (lit ''tr'') (sample_table ?rows)) =
      [sample_row (lit ''a'')] @ tr [td (lit ''x'')] # [sample_row (lit ''boom''), sample_row (lit ''z'')]"
    by (simp add: sample_defs bs4_defs lit_def)
  have short: "length (find_all (lit ''td'') (tr [td (lit ''x'')])) < 7"
    by (simp add: sample_defs bs4_defs lit_def)
  have raises: "isl (raising_get_text (find_all (lit ''td'') (sample_row (lit ''boom'')) ! 0))"
    by (simp add: raising_get_text_def sample_defs bs4_defs lit_def)
  have rest: "parse_rows raising_get_text [sample_row (lit ''a'')] = [sample_submission (lit ''a'')]"
    "parse_rows raising_get_text [sample_row (lit ''boom''), sample_row (lit ''z'')] =
       [sample_submission (lit ''z'')]"
    by (simp_all add: raising_get_text_def row_submission_def bind_r_def sample_defs bs4_defs lit_def)
  from parse_passes_over_bad_rows [OF h1 h2, of raising_get_text] short raises rest
  show ?thesis by simp
qed

section \<open>The next-page control\<close>

lemma first_match:
  "(case filter R xs of [] \<Rightarrow> False | a # rest \<Rightarrow> G a) \<longleftrightarrow>
   (\<exists>pre a post. xs = pre @ a # post \<and> (\<forall>d\<in>set pre. \<not> R d) \<and> R a \<and> G a)"
proof
  assume l: "case filter R xs of [] \<Rightarrow> False | a # rest \<Rightarrow> G a"
  then obtain a rest where f: "filter R xs = a # rest" and g: "G a"
    by (cases "filter R xs") auto
  from f obtain pre post where "xs = pre @ a # post" "\<forall>d\<in>set pre. \<not> R d" "R a"
    by (auto simp: filter_eq_Cons_iff)
  with g show "\<exists>pre a post. xs = pre @ a # post \<and> (\<forall>d\<in>set pre. \<not> R d) \<and> R a \<and> G a"
    by blast
next
  assume "\<exists>pre a post. xs = pre @ a # post \<and> (\<forall>d\<in>set pre. \<not> R d) \<and> R a \<and> G a"
  then obtain pre a post where x: "xs = pre @ a # post" and p: "\<forall>d\<in>set pre. \<not> R d"
    and a: "R a" "G a"
    by blast
  from p have "filter R pre = []" by (simp add: filter_empty_conv)
  with x a show "case filter R xs of [] \<Rightarrow> False | a # rest \<Rightarrow> G a" by simp
qed

lemma has_next_page_filter:
  "has_next_page soup =
     (case filter (\<lambda>d. is_tag_named (lit ''a'') d \<and> node_string d = Some (lit ''Next''))
             (descendants soup) of
        [] \<Rightarrow> False
      | a # rest \<Rightarrow> lit ''disabled'' \<notin> set (get_class a))"
  by (simp add: has_next_page_def find_string_def find_all_string_def find_all_def
      split: list.splits)

text \<open>
  C4, as the code has it. \<open>has_next_page\<close> holds exactly when the first tag in document
  order that is an \<open>a\<close> with \<open>.string\<close> equal to \<open>Next\<close> exists and does not have
  \<open>disabled\<close> in its class list. Anchors after that one are not looked at. The
  \<open>.string\<close> of an anchor is not its visible text: it is the string of its only child
  (a text or a comment, directly or below tags that have one child each), and an anchor
  with more than one child has none.
\<close>

theorem has_next_page_first_anchor:
  "has_next_page soup \<longleftrightarrow>
     (\<exists>pre a post. descendants soup = pre @ a # post \<and>
        (\<forall>d\<in>set pre. \<not> (is_tag_named (lit ''a'') d \<and> node_string d = Some (lit ''Next''))) \<and>
        (is_tag_named (lit ''a'') a \<and> node_string a = Some (lit ''Next'')) \<and>
        lit ''disabled'' \<notin> set (get_class a))"
  unfolding has_next_page_filter by (rule first_match)

theorem has_next_page_first_anchor_witness:
  "has_next_page (sample_page [] [anchor (Some [lit ''btn'']) (lit ''Next'')])"
proof -
  let ?a = "anchor (Some [lit ''btn'']) (lit ''Next'')"
  let ?pre = "[sample_table [], header_row, Tag (lit ''th'') None [NavigableString (lit ''Time'')],
      NavigableString (lit ''Time'')]"
  have d: "descendants (sample_page [] [?a]) = ?pre @ ?a # [NavigableString (lit ''Next'')]"
    by (simp add: sample_defs)
  have p: "\<forall>d\<in>set ?pre. \<not> (is_tag_named (lit ''a'') d \<and> node_string d = Some (lit ''Next''))"
    by (simp add: sample_defs lit_def)
  have a: "is_tag_named (lit ''a'') ?a \<and> node_string ?a = Some (lit ''Next'')"
    by (simp add: sample_defs)
  have c: "lit ''disabled'' \<notin> set (get_class ?a)"
    by (simp add: sample_defs get_class_def lit_def)
  from d p a c have "\<exists>pre a post. descendants (sample_page [] [?a]) = pre @ a # post \<and>
        (\<forall>d\<in>set pre. \<not> (is_tag_named (lit ''a'') d \<and> node_string d = Some (lit ''Next''))) \<and>
        (is_tag_named (lit ''a'') a \<and> node_string a = Some (lit ''Next'')) \<and>
        lit ''disabled'' \<notin> set (get_class a)"
    by blast
  with has_next_page_first_anchor [of "sample_page [] [?a]"] show ?thesis by blast
qed

text \<open>
  Three pages on which C4 fails as it is worded, \<open>get_text\<close> giving the visible text
  of an anchor. On the first, an enabled anchor with the text \<open>Next\<close> is present, after
  a disabled one, and \<open>has_next_page\<close> is false: only the first anchor is looked at.
  On the second, the only anchor is enabled and its visible text is \<open>Next\<close>, after an
  icon, and \<open>has_next_page\<close> is false: the anchor has two children and so no
  \<open>.string\<close>. On the third, the only anchor has no visible text, its child being the
  comment \<open>Next\<close>, and \<open>has_next_page\<close> is true.
\<close>

theorem has_next_page_any_anchor_counterexample:
  "(find_all (lit ''a'')
      (sample_page [] [anchor (Some [lit ''disabled'']) (lit ''Next''), anchor None (lit ''Next'')]) =
     [anchor (Some [lit ''disabled'']) (lit ''Next''), anchor None (lit ''Next'')] \<and>
    get_text_strip (anchor None (lit ''Next'')) = lit ''Next'' \<and>
    node_string (anchor None (lit ''Next'')) = Some (lit ''Next'') \<and>
    lit ''disabled'' \<notin> set (get_class (anchor None (lit ''Next''))) \<and>
    \<not> has_next_page
      (sample_page [] [anchor (Some [lit ''disabled'']) (lit ''Next''), anchor None (lit ''Next'')])) \<and>
   (find_all (lit ''a'') (sample_page [] [icon_anchor]) = [icon_anchor] \<and>
    get_text_strip icon_anchor = lit ''Next'' \<and>
    lit ''disabled'' \<notin> set (get_class icon_anchor) \<and>
    \<not> has_next_page (sample_page [] [icon_anchor])) \<and>
   (find_all (lit ''a'') (sample_page [] [comment_anchor]) = [comment_anchor] \<and>
    get_text_strip comment_anchor = [] \<and>
    has_next_page (sample_page [] [comment_anchor]))"
  by (simp add: has_next_page_def icon_anchor_def comment_anchor_def sample_defs bs4_defs lit_def)

text \<open>
  C10. Only the first \<open>a\<close> whose \<open>.string\<close> is exactly \<open>Next\<close> decides: whatever
  anchors follow it, the answer is whether that one lacks the class \<open>disabled\<close>. With
  a disabled \<open>Next\<close> before an enabled one the answer is false. An anchor whose string
  is not exactly \<open>Next\<close> is not found: when no anchor has that string the answer is
  false, as for the anchors \<open>Next \<close>, \<open> Next\<close> and \<open>Next page\<close>.
\<close>

theorem has_next_page_only_first_exact:
  "(find_all_string (lit ''a'') (lit ''Next'') soup = first # others \<longrightarrow>
      has_next_page soup = (lit ''disabled'' \<notin> set (get_class first))) \<and>
   ((\<forall>d\<in>set (find_all (lit ''a'') soup). node_string d \<noteq> Some (lit ''Next'')) \<longrightarrow>
      \<not> has_next_page soup) \<and>
   \<not> has_next_page
      (sample_page [] [anchor (Some [lit ''disabled'']) (lit ''Next''), anchor None (lit ''Next'')]) \<and>
   \<not> has_next_page
      (sample_page [] [anchor None (lit ''Next ''), anchor None (lit '' Next''),
         anchor None (lit ''Next page'')])"
proof -
  have c1: "find_all_string (lit ''a'') (lit ''Next'') soup = first # others \<longrightarrow>
      has_next_page soup = (lit ''disabled'' \<notin> set (get_class first))"
    by (simp add: has_next_page_def find_string_def)
  have c2: "(\<forall>d\<in>set (find_all (lit ''a'') soup). node_string d \<noteq> Some (lit ''Next'')) \<longrightarrow>
      \<not> has_next_page soup"
  proof
    assume "\<forall>d\<in>set (find_all (lit ''a'') soup). node_string d \<noteq> Some (lit ''Next'')"
    then have "find_all_string (lit ''a'') (lit ''Next'') soup = []"
      by (simp add: find_all_string_def filter_empty_conv)
    then show "\<not> has_next_page soup" by (simp add: has_next_page_def find_string_def)
  qed
  have c3: "\<not> has_next_page
      (sample_page [] [anchor (Some [lit ''disabled'']) (lit ''Next''), anchor None (lit ''Next'')])"
    by (simp add: has_next_page_def sample_defs bs4_defs lit_def)
  have c4: "\<not> has_next_page
      (sample_page [] [anchor None (lit ''Next ''), anchor None (lit '' Next''),
         anchor None (lit ''Next page'')])"
    by (simp add: has_next_page_def sample_defs bs4_defs lit_def)
  from c1 c2 c3 c4 show ?thesis by blast
qed

theorem has_next_page_only_first_exact_witness:
  "has_next_page
     (sample_page [] [anchor None (lit ''Next ''), anchor (Some [lit ''btn'']) (lit ''Next''),
        anchor (Some [lit ''disabled'']) (lit ''Next'')]) \<and>
   \<not> has_next_page (sample_page [] [anchor None (lit ''Next '')])"
proof -
  let ?p = "sample_page [] [anchor None (lit ''Next ''), anchor (Some [lit ''btn'']) (lit ''Next''),
        anchor (Some [lit ''disabled'']) (lit ''Next'')]"
  let ?q = "sample_page [] [anchor None (lit ''Next '')]"
  have h1: "find_all_string (lit ''a'') (lit ''Next'') ?p =
      anchor (Some [lit ''btn'']) (lit ''Next'') # [anchor (Some [lit ''disabled'']) (lit ''Next'')]"
    by (simp add: sample_defs bs4_defs lit_def)
  have h2: "lit ''disabled'' \<notin> set (get_class (anchor (Some [lit ''btn'']) (lit ''Next'')))"
    by (simp add: sample_defs bs4_defs lit_def)
  have h3: "\<forall>d\<in>set (find_all (lit ''a'') ?q). node_string d \<noteq> Some (lit ''Next'')"
    by (simp add: sample_defs bs4_defs lit_def)
  from has_next_page_only_first_exact [of ?p "anchor (Some [lit ''btn'']) (lit ''Next'')"
      "[anchor (Some [lit ''disabled'']) (lit ''Next'')]"]
    has_next_page_only_first_exact [of ?q] h1 h2 h3
  show ?thesis by blast
qed

section \<open>The collection loop\<close>

lemma fetch_loop_steps:
  assumes "\<forall>j<k. response_page (srv (length (requests st) + j) (u, p, page + int j)) = Inr (pg j) \<and>
             parse_submission_page (pg j) \<noteq> [] \<and> has_next_page (pg j)"
    and "page + int k \<le> mp + 1"
  shows "fetch_loop srv u p mp page acc st =
     fetch_loop srv u p mp (page + int k)
       (acc @ concat (map (\<lambda>j. parse_submission_page (pg j)) [0..<k]))
       (st\<lparr>requests := requests st @ map (\<lambda>j. (u, p, page + int j)) [0..<k],
           sleeps := sleeps st + k\<rparr>)"
  using assms
proof (induction k arbitrary: page acc st pg)
  case 0
  then show ?case by simp
next
  case (Suc k)
  let ?st1 = "sleep (st\<lparr>requests := requests st @ [(u, p, page)]\<rparr>)"
  from Suc.prems(1) have first: "response_page (srv (length (requests st)) (u, p, page)) = Inr (pg 0)"
    "parse_submission_page (pg 0) \<noteq> []" "has_next_page (pg 0)"
    by auto
  from Suc.prems(2) have le: "page \<le> mp" by simp
  have step: "fetch_loop srv u p mp page acc st =
      fetch_loop srv u p mp (page + 1) (acc @ parse_submission_page (pg 0)) ?st1"
    by (subst fetch_loop.simps) (simp add: le session_get_def first)
  have h1: "\<forall>j<k. response_page (srv (length (requests ?st1) + j) (u, p, page + 1 + int j)) =
        Inr ((pg \<circ> Suc) j) \<and>
      parse_submission_page ((pg \<circ> Suc) j) \<noteq> [] \<and> has_next_page ((pg \<circ> Suc) j)"
  proof (intro allI impI)
    fix j assume "j < k"
    then have "Suc j < Suc k" by simp
    with Suc.prems(1) show "response_page (srv (length (requests ?st1) + j) (u, p, page + 1 + int j)) =
        Inr ((pg \<circ> Suc) j) \<and>
      parse_submission_page ((pg \<circ> Suc) j) \<noteq> [] \<and> has_next_page ((pg \<circ> Suc) j)"
      by (auto simp: sleep_def add.assoc dest!: spec [of _ "Suc j"])
  qed
  from Suc.prems(2) have h2: "page + 1 + int k \<le> mp + 1" by simp
  note ih = Suc.IH [OF h1 h2, of "acc @ parse_submission_page (pg 0)"]
  show ?case
    unfolding step ih
    by (simp add: sleep_def map_upt_Suc add.assoc del: upt_Suc)
qed

lemma fetch_loop_cap: "mp < page \<Longrightarrow> fetch_loop srv u p mp page acc st = (Inr acc, st)"
  by (subst fetch_loop.simps) simp

lemma fetch_loop_raises:
  "page \<le> mp \<Longrightarrow>
   response_page (srv (length (requests st)) (u, p, page)) = Inl RequestException \<Longrightarrow>
   fetch_loop srv u p mp page acc st =
     (Inr acc, st\<lparr>requests := requests st @ [(u, p, page)]\<rparr>)"
  by (subst fetch_loop.simps) (simp add: session_get_def)

lemma fetch_loop_escapes:
  "page \<le> mp \<Longrightarrow> response_page (srv (length (requests st)) (u, p, page)) = Inl e \<Longrightarrow>
   e \<noteq> RequestException \<Longrightarrow>
   fetch_loop srv u p mp page acc st =
     (Inl e, st\<lparr>requests := requests st @ [(u, p, page)]\<rparr>)"
  by (subst fetch_loop.simps) (simp add: session_get_def)

lemma fetch_loop_empty:
  "page \<le> mp \<Longrightarrow> response_page (srv (length (requests st)) (u, p, page)) = Inr html \<Longrightarrow>
   parse_submission_page html = [] \<Longrightarrow>
   fetch_loop srv u p mp page acc st =
     (Inr acc, st\<lparr>requests := requests st @ [(u, p, page)]\<rparr>)"
  by (subst fetch_loop.simps) (simp add: session_get_def)

lemma fetch_loop_last:
  "page \<le> mp \<Longrightarrow> response_page (srv (length (requests st)) (u, p, page)) = Inr html \<Longrightarrow>
   parse_submission_page html \<noteq> [] \<Longrightarrow> \<not> has_next_page html \<Longrightarrow>
   fetch_loop srv u p mp page acc st =
     (Inr (acc @ parse_submission_page html), st\<lparr>requests := requests st @ [(u, p, page)]\<rparr>)"
  by (subst fetch_loop.simps) (simp add: session_get_def)

lemma fetch_loop_next:
  "page \<le> mp \<Longrightarrow> response_page (srv (length (requests st)) (u, p, page)) = Inr html \<Longrightarrow>
   parse_submission_page html \<noteq> [] \<Longrightarrow> has_next_page html \<Longrightarrow>
   fetch_loop srv u p mp page acc st =
     fetch_loop srv u p mp (page + 1) (acc @ parse_submission_page html)
       (sleep (st\<lparr>requests := requests st @ [(u, p, page)]\<rparr>))"
  by (subst fetch_loop.simps) (simp add: session_get_def)

lemma transport_failure:
  "r = Raises RequestException \<or>
     (\<exists>code html. r = Response code html \<and> 400 \<le> code \<and> code < 600) \<Longrightarrow>
   response_page r = Inl RequestException"
  by auto

lemma fetch_loop_requests:
  "\<exists>n. page + int n \<le> max page (mp + 1) \<and>
       requests (snd (fetch_loop srv u p mp page acc st)) =
         requests st @ map (\<lambda>j. (u, p, page + int j)) [0..<n]"
proof (induction "nat (mp + 1 - page)" arbitrary: page acc st)
  case 0
  then have "mp < page" by simp
  then have "fetch_loop srv u p mp page acc st = (Inr acc, st)" by (rule fetch_loop_cap)
  then have "page + int 0 \<le> max page (mp + 1) \<and>
       requests (snd (fetch_loop srv u p mp page acc st)) =
         requests st @ map (\<lambda>j. (u, p, page + int j)) [0..<0]"
    by simp
  then show ?case by blast
next
  case (Suc m)
  then have le: "page \<le> mp" by simp
  let ?r = "response_page (srv (length (requests st)) (u, p, page))"
  let ?st1 = "st\<lparr>requests := requests st @ [(u, p, page)]\<rparr>"
  have one: "requests (snd (fetch_loop srv u p mp page acc st)) = requests ?st1 \<Longrightarrow> ?case"
  proof -
    assume "requests (snd (fetch_loop srv u p mp page acc st)) = requests ?st1"
    with le have "page + int 1 \<le> max page (mp + 1) \<and>
       requests (snd (fetch_loop srv u p mp page acc st)) =
         requests st @ map (\<lambda>j. (u, p, page + int j)) [0..<1]"
      by simp
    then show ?case by blast
  qed
  show ?case
  proof (cases ?r)
    case (Inl e)
    show ?thesis
    proof (cases "e = RequestException")
      case True
      with Inl have "?r = Inl RequestException" by simp
      with le have "fetch_loop srv u p mp page acc st = (Inr acc, ?st1)"
        by (rule fetch_loop_raises)
      then show ?thesis by (intro one) simp
    next
      case False
      from le Inl False have "fetch_loop srv u p mp page acc st = (Inl e, ?st1)"
        by (rule fetch_loop_escapes)
      then show ?thesis by (intro one) simp
    qed
  next
    case (Inr html)
    show ?thesis
    proof (cases "parse_submission_page html = []")
      case True
      from le Inr True have "fetch_loop srv u p mp page acc st = (Inr acc, ?st1)"
        by (rule fetch_loop_empty)
      then show ?thesis by (intro one) simp
    next
      case False
      show ?thesis
      proof (cases "has_next_page html")
        case False
        from le Inr \<open>parse_submission_page html \<noteq> []\<close> False
        have "fetch_loop srv u p mp page acc st = (Inr (acc @ parse_submission_page html), ?st1)"
          by (rule fetch_loop_last)
        then show ?thesis by (intro one) simp
      next
        case True
        from le Inr False True
        have step: "fetch_loop srv u p mp page acc st =
            fetch_loop srv u p mp (page + 1) (acc @ parse_submission_page html) (sleep ?st1)"
          by (rule fetch_loop_next)
        from Suc.hyps(2) have m: "m = nat (mp + 1 - (page + 1))" by simp
        from Suc.hyps(1) [OF m, of "acc @ parse_submission_page html" "sleep ?st1"]
        obtain n where n: "page + 1 + int n \<le> max (page + 1) (mp + 1)"
          and r: "requests (snd (fetch_loop srv u p mp (page + 1) (acc @ parse_submission_page html)
                (sleep ?st1))) =
              requests (sleep ?st1) @ map (\<lambda>j. (u, p, page + 1 + int j)) [0..<n]"
          by blast
        from n le have "page + int (Suc n) \<le> max page (mp + 1)" by simp
        moreover have "requests (snd (fetch_loop srv u p mp page acc st)) =
            requests st @ map (\<lambda>j. (u, p, page + int j)) [0..<Suc n]"
          unfolding step r by (simp add: sleep_def map_upt_Suc add.assoc del: upt_Suc)
        ultimately show ?thesis by blast
      qed
    qed
  qed
qed

text \<open>
  C5. From any state and for any \<open>max_pages\<close>, \<open>fetch_submissions\<close> comes to an end
  (with its list, or with an exception that its loop does not catch), and the
  requests it has issued are those for the pages 1, 2, ..., n in this order, for some
  n that is at most \<open>max_pages\<close> (none when \<open>max_pages\<close> is below 1). When every answer
  is a page with records and an enabled \<open>Next\<close>, so that nothing else stops the loop,
  n is \<open>max_pages\<close>.
\<close>

theorem fetch_submissions_bounded:
  "(\<exists>n. int n \<le> max 0 max_pages \<and>
        requests (snd (fetch_submissions srv u p max_pages st)) =
          requests st @ map (\<lambda>j. (u, p, 1 + int j)) [0..<n]) \<and>
   ((\<forall>m rq. \<exists>html. response_page (srv m rq) = Inr html \<and>
        parse_submission_page html \<noteq> [] \<and> has_next_page html) \<longrightarrow>
      requests (snd (fetch_submissions srv u p max_pages st)) =
        requests st @ map (\<lambda>j. (u, p, 1 + int j)) [0..<nat max_pages])"
proof
  from fetch_loop_requests [of 1 max_pages srv u p "[]" st]
  obtain n where "1 + int n \<le> max 1 (max_pages + 1)"
    and r: "requests (snd (fetch_loop srv u p max_pages 1 [] st)) =
      requests st @ map (\<lambda>j. (u, p, 1 + int j)) [0..<n]"
    by blast
  then have "int n \<le> max 0 max_pages" by simp
  with r show "\<exists>n. int n \<le> max 0 max_pages \<and>
        requests (snd (fetch_submissions srv u p max_pages st)) =
          requests st @ map (\<lambda>j. (u, p, 1 + int j)) [0..<n]"
    unfolding fetch_submissions_def by blast
next
  show "(\<forall>m rq. \<exists>html. response_page (srv m rq) = Inr html \<and>
        parse_submission_page html \<noteq> [] \<and> has_next_page html) \<longrightarrow>
      requests (snd (fetch_submissions srv u p max_pages st)) =
        requests st @ map (\<lambda>j. (u, p, 1 + int j)) [0..<nat max_pages]"
  proof
    assume a: "\<forall>m rq. \<exists>html. response_page (srv m rq) = Inr html \<and>
        parse_submission_page html \<noteq> [] \<and> has_next_page html"
    define pg where "pg j = projr (response_page (srv (length (requests st) + j) (u, p, 1 + int j)))"
      for j
    have cont: "\<forall>j<nat max_pages.
        response_page (srv (length (requests st) + j) (u, p, 1 + int j)) = Inr (pg j) \<and>
        parse_submission_page (pg j) \<noteq> [] \<and> has_next_page (pg j)"
    proof (intro allI impI)
      fix j
      from a obtain html where
        "response_page (srv (length (requests st) + j) (u, p, 1 + int j)) = Inr html"
        "parse_submission_page html \<noteq> []" "has_next_page html"
        by blast
      then show "response_page (srv (length (requests st) + j) (u, p, 1 + int j)) = Inr (pg j) \<and>
        parse_submission_page (pg j) \<noteq> [] \<and> has_next_page (pg j)"
        by (simp add: pg_def)
    qed
    show "requests (snd (fetch_submissions srv u p max_pages st)) =
        requests st @ map (\<lambda>j. (u, p, 1 + int j)) [0..<nat max_pages]"
    proof (cases "max_pages < 1")
      case True
      then show ?thesis by (simp add: fetch_submissions_def fetch_loop_cap)
    next
      case False
      then have b: "1 + int (nat max_pages) \<le> max_pages + 1" by simp
      from False have c: "max_pages < 1 + int (nat max_pages)" by simp
      show ?thesis
        unfolding fetch_submissions_def fetch_loop_steps [OF cont b] fetch_loop_cap [OF c]
        by simp
    qed
  qed
qed

theorem fetch_submissions_bounded_witness:
  "requests (snd (fetch_submissions
      (constant_server (sample_page [sample_row (lit ''a'')] [anchor None (lit ''Next'')]))
      (lit ''stu01'') (lit ''P1'') 3 initial_state)) =
     [(lit ''stu01'', lit ''P1'', 1), (lit ''stu01'', lit ''P1'', 2), (lit ''stu01'', lit ''P1'', 3)]"
proof -
  let ?page = "sample_page [sample_row (lit ''a'')] [anchor None (lit ''Next'')]"
  have p: "parse_submission_page ?page \<noteq> []"
    by (simp add: parse_submission_page_def parse_submission_page_with_def row_submission_def
        bind_r_def bs4_get_text_def sample_defs bs4_defs lit_def)
  have n: "has_next_page ?page"
    by (simp add: has_next_page_def sample_defs bs4_defs lit_def)
  have h: "\<forall>m rq. \<exists>html. response_page (constant_server ?page m rq) = Inr html \<and>
        parse_submission_page html \<noteq> [] \<and> has_next_page html"
    using p n by (simp add: constant_server_def)
  have u: "[0..<3::nat] = [0, 1, 2]" by (simp add: upt_rec)
  from fetch_submissions_bounded [of 3 "constant_server ?page" "lit ''stu01''" "lit ''P1''"
      initial_state] h
  show ?thesis by (simp add: initial_state_def u)
qed

text \<open>
  C6. Let the first k pages be answered with pages that have records and an enabled
  \<open>Next\<close>, and let the next request, still within \<open>max_pages\<close>, fail in transport:
  \<open>session.get\<close> raises a \<open>RequestException\<close>, or the answer has a status from 400 to
  599. Then
  \<open>fetch_submissions\<close> returns the records of those k pages, in order, and nothing
  else; it has issued k + 1 requests and paused k times. The result is this list: the
  exception does not leave the function.
\<close>

theorem fetch_submissions_transport_failure:
  assumes "\<forall>j<k. response_page (srv (length (requests st) + j) (u, p, 1 + int j)) = Inr (pg j) \<and>
             parse_submission_page (pg j) \<noteq> [] \<and> has_next_page (pg j)"
    and "int k < max_pages"
    and "srv (length (requests st) + k) (u, p, 1 + int k) = Raises RequestException \<or>
         (\<exists>code html. srv (length (requests st) + k) (u, p, 1 + int k) = Response code html \<and>
            400 \<le> code \<and> code < 600)"
  shows "fetch_submissions srv u p max_pages st =
     (Inr (concat (map (\<lambda>j. parse_submission_page (pg j)) [0..<k])),
      st\<lparr>requests := requests st @ map (\<lambda>j. (u, p, 1 + int j)) [0..<Suc k],
          sleeps := sleeps st + k\<rparr>)"
proof -
  let ?st = "st\<lparr>requests := requests st @ map (\<lambda>j. (u, p, 1 + int j)) [0..<k],
          sleeps := sleeps st + k\<rparr>"
  from assms(2) have b: "1 + int k \<le> max_pages + 1" and le: "1 + int k \<le> max_pages"
    by simp_all
  from assms(3)
  have "response_page (srv (length (requests st) + k) (u, p, 1 + int k)) = Inl RequestException"
    by (rule transport_failure)
  then have f: "response_page (srv (length (requests ?st)) (u, p, 1 + int k)) = Inl RequestException"
    by simp
  from le f have "fetch_loop srv u p max_pages (1 + int k)
      (concat (map (\<lambda>j. parse_submission_page (pg j)) [0..<k])) ?st =
      (Inr (concat (map (\<lambda>j. parse_submission_page (pg j)) [0..<k])),
       ?st\<lparr>requests := requests ?st @ [(u, p, 1 + int k)]\<rparr>)"
    by (rule fetch_loop_raises)
  then show ?thesis
    unfolding fetch_submissions_def fetch_loop_steps [OF assms(1) b] by simp
qed

theorem fetch_submissions_transport_failure_witness:
  "fetch_submissions
     (scripted_server
        [Response 200 (Inr (sample_page [sample_row (lit ''a'')] [anchor None (lit ''Next'')])),
         Response 503 (Inr (sample_page [sample_row (lit ''b'')] []))])
     (lit ''stu01'') (lit ''P1'') 5 initial_state =
     (Inr [sample_submission (lit ''a'')],
      initial_state\<lparr>requests := [(lit ''stu01'', lit ''P1'', 1), (lit ''stu01'', lit ''P1'', 2)],
         sleeps := 1\<rparr>)"
proof -
  let ?page = "sample_page [sample_row (lit ''a'')] [anchor None (lit ''Next'')]"
  let ?srv = "scripted_server [Response 200 (Inr ?page), Response 503 (Inr (sample_page [sample_row (lit ''b'')] []))]"
  have p: "parse_submission_page ?page = [sample_submission (lit ''a'')]"
    by (simp add: parse_submission_page_def parse_submission_page_with_def row_submission_def
        bind_r_def bs4_get_text_def sample_defs bs4_defs lit_def)
  have n: "has_next_page ?page"
    by (simp add: has_next_page_def sample_defs bs4_defs lit_def)
  have h1: "\<forall>j<1. response_page (?srv (length (requests initial_state) + j)
        (lit ''stu01'', lit ''P1'', 1 + int j)) = Inr ((\<lambda>j. ?page) j) \<and>
      parse_submission_page ((\<lambda>j. ?page) j) \<noteq> [] \<and> has_next_page ((\<lambda>j. ?page) j)"
    using p n by (simp add: scripted_server_def initial_state_def)
  have h2: "int 1 < 5" by simp
  have h3: "?srv (length (requests initial_state) + 1) (lit ''stu01'', lit ''P1'', 1 + int 1) = Raises RequestException \<or>
      (\<exists>code html. ?srv (length (requests initial_state) + 1) (lit ''stu01'', lit ''P1'', 1 + int 1) =
          Response code html \<and> 400 \<le> code \<and> code < 600)"
    by (simp add: scripted_server_def initial_state_def)
  from fetch_submissions_transport_failure [OF h1 h2 h3] p
  show ?thesis by (simp add: initial_state_def)
qed

lemma parse_no_table: "find_first (lit ''table'') html = None \<Longrightarrow> parse_submission_page html = []"
  by (simp add: parse_submission_page_def parse_submission_page_with_def)

lemma fetch_submissions_empty_page:
  assumes "\<forall>j<k. response_page (srv (length (requests st) + j) (u, p, 1 + int j)) = Inr (pg j) \<and>
             parse_submission_page (pg j) \<noteq> [] \<and> has_next_page (pg j)"
    and "int k < max_pages"
    and "response_page (srv (length (requests st) + k) (u, p, 1 + int k)) = Inr html"
    and "parse_submission_page html = []"
  shows "fetch_submissions srv u p max_pages st =
     (Inr (concat (map (\<lambda>j. parse_submission_page (pg j)) [0..<k])),
      st\<lparr>requests := requests st @ map (\<lambda>j. (u, p, 1 + int j)) [0..<Suc k],
          sleeps := sleeps st + k\<rparr>)"
proof -
  let ?st = "st\<lparr>requests := requests st @ map (\<lambda>j. (u, p, 1 + int j)) [0..<k],
          sleeps := sleeps st + k\<rparr>"
  from assms(2) have b: "1 + int k \<le> max_pages + 1" and le: "1 + int k \<le> max_pages"
    by simp_all
  from assms(3) have f: "response_page (srv (length (requests ?st)) (u, p, 1 + int k)) = Inr html"
    by simp
  from le f assms(4) have "fetch_loop srv u p max_pages (1 + int k)
      (concat (map (\<lambda>j. parse_submission_page (pg j)) [0..<k])) ?st =
      (Inr (concat (map (\<lambda>j. parse_submission_page (pg j)) [0..<k])),
       ?st\<lparr>requests := requests ?st @ [(u, p, 1 + int k)]\<rparr>)"
    by (rule fetch_loop_empty)
  then show ?thesis
    unfolding fetch_submissions_def fetch_loop_steps [OF assms(1) b] by simp
qed

text \<open>
  C7. Let the first k pages be answered with pages that have records and an enabled
  \<open>Next\<close>, and let the next page, still within \<open>max_pages\<close>, parse to no record. Then
  \<open>fetch_submissions\<close> stops there: it returns the records of the k pages, having
  issued k + 1 requests. A page without a \<open>table\<close> parses to no record. So when
  \<open>max_pages\<close> is at least 1 and the first page has no table, the result is empty after
  exactly one request and no pause.
\<close>

theorem fetch_submissions_stops_on_empty_page:
  "((\<forall>j<k. response_page (srv (length (requests st) + j) (u, p, 1 + int j)) = Inr (pg j) \<and>
        parse_submission_page (pg j) \<noteq> [] \<and> has_next_page (pg j)) \<and>
     int k < max_pages \<and>
     response_page (srv (length (requests st) + k) (u, p, 1 + int k)) = Inr html \<and>
     parse_submission_page html = [] \<longrightarrow>
     fetch_submissions srv u p max_pages st =
       (Inr (concat (map (\<lambda>j. parse_submission_page (pg j)) [0..<k])),
        st\<lparr>requests := requests st @ map (\<lambda>j. (u, p, 1 + int j)) [0..<Suc k],
            sleeps := sleeps st + k\<rparr>)) \<and>
   (find_first (lit ''table'') html = None \<longrightarrow> parse_submission_page html = []) \<and>
   (1 \<le> max_pages \<and> response_page (srv (length (requests st)) (u, p, 1)) = Inr html \<and>
     find_first (lit ''table'') html = None \<longrightarrow>
     fetch_submissions srv u p max_pages st =
       (Inr [], st\<lparr>requests := requests st @ [(u, p, 1)]\<rparr>))"
proof (intro conjI impI)
  assume a: "(\<forall>j<k. response_page (srv (length (requests st) + j) (u, p, 1 + int j)) = Inr (pg j) \<and>
        parse_submission_page (pg j) \<noteq> [] \<and> has_next_page (pg j)) \<and>
     int k < max_pages \<and>
     response_page (srv (length (requests st) + k) (u, p, 1 + int k)) = Inr html \<and>
     parse_submission_page html = []"
  then have a1: "\<forall>j<k. response_page (srv (length (requests st) + j) (u, p, 1 + int j)) = Inr (pg j) \<and>
        parse_submission_page (pg j) \<noteq> [] \<and> has_next_page (pg j)"
    and a2: "int k < max_pages"
    and a3: "response_page (srv (length (requests st) + k) (u, p, 1 + int k)) = Inr html"
    and a4: "parse_submission_page html = []"
    by blast+
  from a1 a2 a3 a4 show "fetch_submissions srv u p max_pages st =
       (Inr (concat (map (\<lambda>j. parse_submission_page (pg j)) [0..<k])),
        st\<lparr>requests := requests st @ map (\<lambda>j. (u, p, 1 + int j)) [0..<Suc k],
            sleeps := sleeps st + k\<rparr>)"
    by (rule fetch_submissions_empty_page)
next
  assume "find_first (lit ''table'') html = None"
  then show "parse_submission_page html = []" by (rule parse_no_table)
next
  assume b: "1 \<le> max_pages \<and> response_page (srv (length (requests st)) (u, p, 1)) = Inr html \<and>
     find_first (lit ''table'') html = None"
  then have e: "parse_submission_page html = []" by (simp add: parse_no_table)
  from b have le: "(1::int) \<le> max_pages"
    and r: "response_page (srv (length (requests st)) (u, p, 1)) = Inr html"
    by simp_all
  from le r e have "fetch_loop srv u p max_pages 1 [] st =
      (Inr [], st\<lparr>requests := requests st @ [(u, p, 1)]\<rparr>)"
    by (rule fetch_loop_empty)
  then show "fetch_submissions srv u p max_pages st =
       (Inr [], st\<lparr>requests := requests st @ [(u, p, 1)]\<rparr>)"
    by (simp add: fetch_submissions_def)
qed

theorem fetch_submissions_stops_on_empty_page_witness:
  "fetch_submissions (constant_server (Tag (lit ''[document]'') None [NavigableString (lit ''no records'')]))
     (lit ''stu01'') (lit ''P1'') 5 initial_state =
     (Inr [], initial_state\<lparr>requests := [(lit ''stu01'', lit ''P1'', 1)]\<rparr>) \<and>
   fetch_submissions
     (scripted_server
        [Response 200 (Inr (sample_page [sample_row (lit ''a'')] [anchor None (lit ''Next'')])),
         Response 200 (Inr (sample_page [] [anchor None (lit ''Next'')]))])
     (lit ''stu01'') (lit ''P1'') 5 initial_state =
     (Inr [sample_submission (lit ''a'')],
      initial_state\<lparr>requests := [(lit ''stu01'', lit ''P1'', 1), (lit ''stu01'', lit ''P1'', 2)],
         sleeps := 1\<rparr>)"
proof -
  let ?empty = "Tag (lit ''[document]'') None [NavigableString (lit ''no records'')]"
  let ?page = "sample_page [sample_row (lit ''a'')] [anchor None (lit ''Next'')]"
  let ?last = "sample_page [] [anchor None (lit ''Next'')]"
  let ?srv = "scripted_server [Response 200 (Inr ?page), Response 200 (Inr ?last)]"
  have t: "find_first (lit ''table'') ?empty = None"
    by (simp add: bs4_defs)
  have r: "response_page (constant_server ?empty (length (requests initial_state))
      (lit ''stu01'', lit ''P1'', 1)) = Inr ?empty"
    by (simp add: constant_server_def)
  have first: "fetch_submissions (constant_server ?empty) (lit ''stu01'') (lit ''P1'') 5 initial_state =
     (Inr [], initial_state\<lparr>requests := [(lit ''stu01'', lit ''P1'', 1)]\<rparr>)"
    using fetch_submissions_stops_on_empty_page [of 0 "constant_server ?empty" initial_state
        "lit ''stu01''" "lit ''P1''" "\<lambda>j. ?empty" 5 ?empty] t r
    by (simp add: initial_state_def)
  have p: "parse_submission_page ?page = [sample_submission (lit ''a'')]"
    by (simp add: parse_submission_page_def parse_submission_page_with_def row_submission_def
        bind_r_def bs4_get_text_def sample_defs bs4_defs lit_def)
  have n: "has_next_page ?page"
    by (simp add: has_next_page_def sample_defs bs4_defs lit_def)
  have e: "parse_submission_page ?last = []"
    by (simp add: parse_submission_page_def parse_submission_page_with_def sample_defs bs4_defs lit_def)
  have h: "(\<forall>j<1. response_page (?srv (length (requests initial_state) + j)
        (lit ''stu01'', lit ''P1'', 1 + int j)) = Inr ((\<lambda>j. ?page) j) \<and>
      parse_submission_page ((\<lambda>j. ?page) j) \<noteq> [] \<and> has_next_page ((\<lambda>j. ?page) j)) \<and>
     int 1 < 5 \<and>
     response_page (?srv (length (requests initial_state) + 1) (lit ''stu01'', lit ''P1'', 1 + int 1)) =
       Inr ?last \<and>
     parse_submission_page ?last = []"
    using p n e by (simp add: scripted_server_def initial_state_def)
  have second: "fetch_submissions ?srv (lit ''stu01'') (lit ''P1'') 5 initial_state =
     (Inr [sample_submission (lit ''a'')],
      initial_state\<lparr>requests := [(lit ''stu01'', lit ''P1'', 1), (lit ''stu01'', lit ''P1'', 2)],
         sleeps := 1\<rparr>)"
    using fetch_submissions_stops_on_empty_page [of 1 ?srv initial_state
        "lit ''stu01''" "lit ''P1''" "\<lambda>j. ?page" 5 ?last] h p
    by (simp add: initial_state_def)
  from first second show ?thesis by simp
qed

section \<open>The batch\<close>
















end
